theory Spec2Isabelle
  imports Main "HOL-Library.Sublist"
begin

section \<open>Strings of the host language\<close>

text \<open>
  The server is TypeScript. Its strings are modelled as \<^typ>\<open>string\<close>, one \<^typ>\<open>char\<close> per
  code unit. The case mappings \<open>toUpperCase\<close> and \<open>toLowerCase\<close> are modelled on the
  ASCII letters and leave every other character as it is; file names, sidecar texts and
  search terms are read as ASCII text throughout.
\<close>

definition lower_letters :: string where
  "lower_letters = ''abcdefghijklmnopqrstuvwxyz''"

definition upper_letters :: string where
  "upper_letters = ''ABCDEFGHIJKLMNOPQRSTUVWXYZ''"

definition toUpperCase_char :: "char \<Rightarrow> char" where
  "toUpperCase_char c =
     (case map_of (zip lower_letters upper_letters) c of None \<Rightarrow> c | Some u \<Rightarrow> u)"

definition toLowerCase_char :: "char \<Rightarrow> char" where
  "toLowerCase_char c =
     (case map_of (zip upper_letters lower_letters) c of None \<Rightarrow> c | Some l \<Rightarrow> l)"

definition toUpperCase :: "string \<Rightarrow> string" where
  "toUpperCase s = map toUpperCase_char s"

definition toLowerCase :: "string \<Rightarrow> string" where
  "toLowerCase s = map toLowerCase_char s"

text \<open>
  Text of ASCII characters only. On such text the two mappings above are the ones of
  JavaScript; outside of it JavaScript maps further letters, which the model does not.
\<close>

definition is_ascii :: "string \<Rightarrow> bool" where
  "is_ascii s = list_all (\<lambda>c. (of_char c :: nat) < 128) s"

text \<open>\<open>s.startsWith(p)\<close> and \<open>s.endsWith(p)\<close>.\<close>

definition startsWith :: "string \<Rightarrow> string \<Rightarrow> bool" where
  "startsWith s p = (take (length p) s = p)"

definition endsWith :: "string \<Rightarrow> string \<Rightarrow> bool" where
  "endsWith s p = (length p \<le> length s \<and> drop (length s - length p) s = p)"

text \<open>
  \<open>s.replace(pat, rep)\<close> with a string pattern: the first occurrence of \<open>pat\<close>, scanning
  from the left, is replaced; a string without an occurrence is returned unchanged. The
  replacement strings of the source hold no \<open>$\<close> pattern.
\<close>

fun replace_js :: "string \<Rightarrow> string \<Rightarrow> string \<Rightarrow> string" where
  "replace_js [] pat rep = (if pat = [] then rep else [])"
| "replace_js (c # cs) pat rep =
     (if startsWith (c # cs) pat then rep @ drop (length pat) (c # cs)
      else c # replace_js cs pat rep)"

text \<open>
  \<open>s.split(sep)\<close> with a string separator. With a non-empty separator the pieces between
  the occurrences found from left to right are returned, so the result always holds at
  least one piece; with the empty separator the result is the list of the code units.
\<close>

fun split_at :: "string \<Rightarrow> string \<Rightarrow> string list" where
  "split_at [] sep = [[]]"
| "split_at (c # cs) sep =
     (if startsWith (c # cs) sep then [] # split_at (drop (length sep - 1) cs) sep
      else (case split_at cs sep of
              [] \<Rightarrow> [[c]]
            | w # ws \<Rightarrow> (c # w) # ws))"

definition split_js :: "string \<Rightarrow> string \<Rightarrow> string list" where
  "split_js s sep = (if sep = [] then map (\<lambda>c. [c]) s else split_at s sep)"

text \<open>\<open>xs.join(sep)\<close>.\<close>

fun join_js :: "string list \<Rightarrow> string \<Rightarrow> string" where
  "join_js [] sep = []"
| "join_js [w] sep = w"
| "join_js (w # ws) sep = w @ sep @ join_js ws sep"

text \<open>\<open>s.charAt(i)\<close> (a string of at most one code unit) and \<open>s.slice(i)\<close>.\<close>

definition charAt :: "string \<Rightarrow> nat \<Rightarrow> string" where
  "charAt s i = take 1 (drop i s)"

definition slice :: "string \<Rightarrow> nat \<Rightarrow> string" where
  "slice s i = drop i s"

text \<open>\<open>s.includes(t)\<close>: some position of \<open>s\<close> starts an occurrence of \<open>t\<close>.\<close>

fun includes_js :: "string \<Rightarrow> string \<Rightarrow> bool" where
  "includes_js [] t = (t = [])"
| "includes_js (c # cs) t = (startsWith (c # cs) t \<or> includes_js cs t)"

section \<open>The catalog entry and the file system\<close>

record sound =
  id_no :: nat
  name :: string
  description :: string
  tags :: "string list"
  audio :: string
  cover :: string

text \<open>
  The file system as the server reads it: \<open>readdir\<close> of a path (\<open>None\<close> when the
  enumeration fails) and the contents of the file at a path (\<open>None\<close> when there is no
  such file).
\<close>

record filesystem =
  fs_readdir :: "string \<Rightarrow> string list option"
  fs_file :: "string \<Rightarrow> string option"

datatype error = ReaddirFailed | NoSuchFile string | TypeError

text \<open>\<open>Bun.file(path).text()\<close> rejects when the file does not exist.\<close>

definition text_of :: "filesystem \<Rightarrow> string \<Rightarrow> error + string" where
  "text_of fs path = (case fs_file fs path of None \<Rightarrow> Inl (NoSuchFile path) | Some t \<Rightarrow> Inr t)"

section \<open>The catalog builder\<close>

definition title :: "string \<Rightarrow> string" where
  "title fileName =
     join_js
       (map (\<lambda>word. toUpperCase (charAt word 0) @ slice word 1)
          (split_js (replace_js (replace_js fileName ''.mp3'' '''') ''_'' '' '') '' ''))
       '' ''"

text \<open>
  The body of the \<open>for\<close> loop, with the list \<open>sounds\<close> built so far: a file name that
  does not end in \<open>.mp3\<close> is skipped; otherwise the sidecar is read and the entry pushed.
  Reading a sidecar that does not exist throws, and so does \<open>.split("-")\<close> on the
  \<open>undefined\<close> that index 1 yields when the text has no second line.
\<close>

definition newline :: string where
  "newline = [CHR 0x0A]"

definition pushSound :: "filesystem \<Rightarrow> sound list \<Rightarrow> string \<Rightarrow> error + sound list" where
  "pushSound fs sounds fileName =
     (if endsWith fileName ''.mp3'' then
        (case text_of fs (''./assets/description/'' @ replace_js fileName ''.mp3'' ''.txt'') of
           Inl e \<Rightarrow> Inl e
         | Inr description_text \<Rightarrow>
             (case split_js description_text newline of
                line0 # line1 # _ \<Rightarrow>
                  Inr (sounds @
                    [\<lparr> id_no = length sounds + 1,
                       name = title fileName,
                       description = line0,
                       tags = split_js line1 ''-'',
                       audio = ''/audio/'' @ fileName,
                       cover = ''/cover/'' @ replace_js fileName ''.mp3'' ''.jpg'' \<rparr>])
              | _ \<Rightarrow> Inl TypeError))
      else Inr sounds)"

fun for_files :: "filesystem \<Rightarrow> string list \<Rightarrow> sound list \<Rightarrow> error + sound list" where
  "for_files fs [] sounds = Inr sounds"
| "for_files fs (fileName # files) sounds =
     (case pushSound fs sounds fileName of
        Inl e \<Rightarrow> Inl e
      | Inr sounds' \<Rightarrow> for_files fs files sounds')"

text \<open>The \<open>try\<close> block of \<open>generateApi\<close>.\<close>

definition generateApi_try :: "filesystem \<Rightarrow> error + sound list" where
  "generateApi_try fs =
     (case fs_readdir fs ''./assets/music'' of
        None \<Rightarrow> Inl ReaddirFailed
      | Some files \<Rightarrow> for_files fs files [])"

text \<open>
  \<open>generateApi\<close>: the \<open>catch\<close> clause logs whatever the \<open>try\<close> block threw and returns the
  empty list. The result is a promise; a rejected one would be \<open>Inl\<close>.
\<close>

definition generateApi :: "filesystem \<Rightarrow> error + sound list" where
  "generateApi fs =
     (case generateApi_try fs of
        Inl e \<Rightarrow> Inr []
      | Inr sounds \<Rightarrow> Inr sounds)"

section \<open>The routes\<close>

text \<open>
  A response: the status, the headers the handler sets itself, and the body, which is the
  JSON array of entries, the JSON object \<open>{error: msg}\<close>, or the bytes of a file.
\<close>

datatype body = Json_sounds "sound list" | Json_error string | File_stream string

record response =
  status :: nat
  headers :: "(string \<times> string) list"
  body :: body

text \<open>\<open>c.json(value, status)\<close>, and \<open>c.body(stream, {headers})\<close> with its default status.\<close>

definition c_json :: "body \<Rightarrow> nat \<Rightarrow> response" where
  "c_json b st = \<lparr> status = st, headers = [], body = b \<rparr>"

definition c_body :: "body \<Rightarrow> (string \<times> string) list \<Rightarrow> response" where
  "c_body b hs = \<lparr> status = 200, headers = hs, body = b \<rparr>"

text \<open>
  \<open>if (search)\<close>: the header value is \<open>undefined\<close> when the request carries no
  \<open>search\<close> header, and the empty string is falsy as well.
\<close>

definition truthy :: "string option \<Rightarrow> bool" where
  "truthy search = (case search of None \<Rightarrow> False | Some term \<Rightarrow> term \<noteq> [])"

text \<open>\<open>sounds != null\<close>: an array, the empty one included, is never \<open>null\<close>.\<close>

definition not_null :: "sound list \<Rightarrow> bool" where
  "not_null sounds = True"

definition filteredSounds :: "sound list \<Rightarrow> string \<Rightarrow> sound list" where
  "filteredSounds sounds search =
     filter
       (\<lambda>sound.
          includes_js (toLowerCase (name sound)) (toLowerCase search) \<or>
          list_ex (\<lambda>tag. includes_js (toLowerCase tag) (toLowerCase search)) (tags sound))
       sounds"

definition get_sounds :: "filesystem \<Rightarrow> string option \<Rightarrow> error + response" where
  "get_sounds fs search =
     (case generateApi fs of
        Inl e \<Rightarrow> Inl e
      | Inr sounds \<Rightarrow>
          (case (if truthy search then search else None) of
             Some term \<Rightarrow>
               Inr (c_json
                 (if length (filteredSounds sounds term) > 0
                  then Json_sounds (filteredSounds sounds term)
                  else Json_error ''No sounds found'')
                 (if length (filteredSounds sounds term) > 0 then 200 else 404))
           | None \<Rightarrow>
               Inr (c_json
                 (if not_null sounds then Json_sounds sounds else Json_error ''No sounds found'')
                 (if not_null sounds then 200 else 404))))"

definition get_audio :: "filesystem \<Rightarrow> string \<Rightarrow> response" where
  "get_audio fs fileName =
     (case fs_file fs (''./assets/music/'' @ fileName) of
        Some bytes \<Rightarrow> c_body (File_stream bytes) [(''Content-Type'', ''audio/mpeg'')]
      | None \<Rightarrow> c_json (Json_error ''Audio file not found'') 404)"

definition get_cover :: "filesystem \<Rightarrow> string \<Rightarrow> response" where
  "get_cover fs fileName =
     (case fs_file fs (''./assets/cover/'' @ fileName) of
        Some bytes \<Rightarrow> c_body (File_stream bytes) [(''Content-Type'', ''image/jpeg'')]
      | None \<Rightarrow> c_json (Json_error ''Cover image not found'') 404)"

section \<open>Properties to be checked, and sample file systems\<close>

text \<open>The path of the sidecar of an audio file, as the loop body builds it.\<close>

definition sidecar_path :: "string \<Rightarrow> string" where
  "sidecar_path fileName = ''./assets/description/'' @ replace_js fileName ''.mp3'' ''.txt''"

text \<open>
  A sidecar is malformed when the description file is missing entirely or its text has no
  second line.
\<close>

definition sidecar_malformed :: "filesystem \<Rightarrow> string \<Rightarrow> bool" where
  "sidecar_malformed fs fileName =
     (case fs_file fs (sidecar_path fileName) of
        None \<Rightarrow> True
      | Some t \<Rightarrow> length (split_js t newline) < 2)"

text \<open>
  The entry \<open>s\<close> is the one the loop body derives for \<open>fileName\<close> when \<open>n\<close> entries were
  built before it.
\<close>

definition built_from :: "filesystem \<Rightarrow> nat \<Rightarrow> string \<Rightarrow> sound \<Rightarrow> bool" where
  "built_from fs n fileName s =
     (\<exists>t line0 line1 rest.
        fs_file fs (sidecar_path fileName) = Some t \<and>
        split_js t newline = line0 # line1 # rest \<and>
        s = \<lparr> id_no = n + 1, name = title fileName, description = line0,
              tags = split_js line1 ''-'', audio = ''/audio/'' @ fileName,
              cover = ''/cover/'' @ replace_js fileName ''.mp3'' ''.jpg'' \<rparr>)"

text \<open>
  The matching rule in the words of the specification. Two characters agree up to case
  when they are equal or are the capital and the small form of one letter; the letters
  are listed here on their own, apart from the case mapping of the code. \<open>s\<close> contains
  \<open>term\<close> as a case-insensitive substring when some stretch of \<open>s\<close> agrees with \<open>term\<close>
  character by character up to case; an entry matches when its name or one of its tags
  does.
\<close>

definition letter_pairs :: "(char \<times> char) list" where
  "letter_pairs =
     [(CHR ''A'', CHR ''a''), (CHR ''B'', CHR ''b''), (CHR ''C'', CHR ''c''),
      (CHR ''D'', CHR ''d''), (CHR ''E'', CHR ''e''), (CHR ''F'', CHR ''f''),
      (CHR ''G'', CHR ''g''), (CHR ''H'', CHR ''h''), (CHR ''I'', CHR ''i''),
      (CHR ''J'', CHR ''j''), (CHR ''K'', CHR ''k''), (CHR ''L'', CHR ''l''),
      (CHR ''M'', CHR ''m''), (CHR ''N'', CHR ''n''), (CHR ''O'', CHR ''o''),
      (CHR ''P'', CHR ''p''), (CHR ''Q'', CHR ''q''), (CHR ''R'', CHR ''r''),
      (CHR ''S'', CHR ''s''), (CHR ''T'', CHR ''t''), (CHR ''U'', CHR ''u''),
      (CHR ''V'', CHR ''v''), (CHR ''W'', CHR ''w''), (CHR ''X'', CHR ''x''),
      (CHR ''Y'', CHR ''y''), (CHR ''Z'', CHR ''z'')]"

definition same_letter :: "char \<Rightarrow> char \<Rightarrow> bool" where
  "same_letter x y = (x = y \<or> (x, y) \<in> set letter_pairs \<or> (y, x) \<in> set letter_pairs)"

definition contains_ci :: "string \<Rightarrow> string \<Rightarrow> bool" where
  "contains_ci s term =
     (\<exists>pre mid post. s = pre @ mid @ post \<and> list_all2 same_letter mid term)"

definition matches :: "string \<Rightarrow> sound \<Rightarrow> bool" where
  "matches term sound =
     (contains_ci (name sound) term \<or> (\<exists>tag \<in> set (tags sound). contains_ci tag term))"

text \<open>An entry whose name and tags are ASCII text.\<close>

definition ascii_sound :: "sound \<Rightarrow> bool" where
  "ascii_sound sound = (is_ascii (name sound) \<and> list_all is_ascii (tags sound))"

definition fs_empty :: filesystem where
  "fs_empty =
     \<lparr> fs_readdir = (\<lambda>p. if p = ''./assets/music'' then Some [] else None),
       fs_file = (\<lambda>p. None) \<rparr>"

text \<open>No music directory at all: the enumeration fails.\<close>

definition fs_nodir :: filesystem where
  "fs_nodir = \<lparr> fs_readdir = (\<lambda>p. None), fs_file = (\<lambda>p. None) \<rparr>"

definition fs_demo :: filesystem where
  "fs_demo =
     \<lparr> fs_readdir =
         (\<lambda>p. if p = ''./assets/music''
              then Some [''notes.md'', ''cool_beat.mp3'', ''a_b_c.mp3'']
              else None),
       fs_file =
         (\<lambda>p. if p = ''./assets/description/cool_beat.txt'' then Some ''Desc\<newline>A-B-C''
              else if p = ''./assets/description/a_b_c.txt'' then Some ''Plain\<newline>''
              else if p = ''./assets/music/cool_beat.mp3'' then Some ''ID3''
              else if p = ''./assets/music/notes.md'' then Some ''todo''
              else if p = ''./assets/cover/orphan.jpg'' then Some ''JFIF''
              else None) \<rparr>"

definition fs_broken :: filesystem where
  "fs_broken =
     \<lparr> fs_readdir =
         (\<lambda>p. if p = ''./assets/music'' then Some [''cool_beat.mp3'', ''b.mp3''] else None),
       fs_file =
         (\<lambda>p. if p = ''./assets/description/cool_beat.txt'' then Some ''Desc\<newline>A-B-C''
              else None) \<rparr>"

definition cool_beat :: sound where
  "cool_beat =
     \<lparr> id_no = 1, name = ''Cool Beat'', description = ''Desc'',
       tags = [''A'', ''B'', ''C''], audio = ''/audio/cool_beat.mp3'',
       cover = ''/cover/cool_beat.jpg'' \<rparr>"

definition a_b_c :: sound where
  "a_b_c =
     \<lparr> id_no = 2, name = ''A B_c'', description = ''Plain'',
       tags = [''''], audio = ''/audio/a_b_c.mp3'',
       cover = ''/cover/a_b_c.jpg'' \<rparr>"

text \<open>
  \<open>fs_demo\<close> with other audio bytes and without the cover file: the listing and the
  sidecars are the same.
\<close>

definition fs_demo_other :: filesystem where
  "fs_demo_other =
     fs_demo \<lparr> fs_file :=
       (fs_file fs_demo)
         (''./assets/cover/orphan.jpg'' := None,
          ''./assets/music/cool_beat.mp3'' := Some ''RIFF'') \<rparr>"

section \<open>Facts about the string operations\<close>

lemma startsWith_prefix: "startsWith s p \<longleftrightarrow> prefix p s"
  unfolding startsWith_def prefix_def
  by (metis append_eq_conv_conj append_take_drop_id)

lemma startsWith_single: "startsWith (x # xs) [c] = (x = c)"
  by (simp add: startsWith_def)

lemma split_at_ne: "split_at s sep \<noteq> []"
  by (induction s sep rule: split_at.induct) (auto split: list.splits)

lemma split_js_ne: "sep \<noteq> [] \<Longrightarrow> split_js s sep \<noteq> []"
  by (simp add: split_js_def split_at_ne)

lemma split_at_no_sep: "c \<notin> set s \<Longrightarrow> split_at s [c] = [s]"
  by (induction s) (auto simp: startsWith_single)

lemma split_at_first_sep: "c \<notin> set u \<Longrightarrow> split_at (u @ c # v) [c] = u # split_at v [c]"
  by (induction u) (auto simp: startsWith_single)

lemma replace_js_no_char: "c \<notin> set s \<Longrightarrow> replace_js s [c] rep = s"
  by (induction s) (auto simp: startsWith_single)

lemma replace_js_first_char: "c \<notin> set u \<Longrightarrow> replace_js (u @ c # v) [c] rep = u @ rep @ v"
  by (induction u) (auto simp: startsWith_single)

lemma replace_js_mp3: "CHR ''.'' \<notin> set w \<Longrightarrow> replace_js (w @ ''.mp3'') ''.mp3'' rep = w @ rep"
  by (induction w) (auto simp: startsWith_def)

lemma includes_js_sublist: "includes_js s t \<longleftrightarrow> sublist t s"
  by (induction s) (auto simp: startsWith_prefix sublist_Cons_right)

lemma list_all2_map_eq: "list_all2 (\<lambda>x y. f x = f y) xs ys \<longleftrightarrow> map f xs = map f ys"
  by (induction xs arbitrary: ys) (auto simp: list_all2_Cons1 Cons_eq_map_conv)

lemma case_table: "zip upper_letters lower_letters = letter_pairs"
  by (simp add: upper_letters_def lower_letters_def letter_pairs_def)

lemma distinct_capitals: "distinct (map fst letter_pairs)"
  by (simp add: letter_pairs_def)

lemma distinct_smalls: "distinct (map snd letter_pairs)"
  by (simp add: letter_pairs_def)

lemma small_not_capital: "set (map snd letter_pairs) \<inter> set (map fst letter_pairs) = {}"
  by (simp add: letter_pairs_def)

lemma toLowerCase_char_capital:
  assumes "(u, l) \<in> set letter_pairs"
  shows "toLowerCase_char u = l"
  using assms distinct_capitals by (simp add: toLowerCase_char_def case_table)

lemma toLowerCase_char_other:
  assumes "c \<notin> set (map fst letter_pairs)"
  shows "toLowerCase_char c = c"
proof -
  from assms have "map_of letter_pairs c = None"
    by (simp add: map_of_eq_None_iff)
  then show ?thesis by (simp add: toLowerCase_char_def case_table)
qed

lemma toLowerCase_char_small:
  assumes "(u, l) \<in> set letter_pairs"
  shows "toLowerCase_char l = l"
proof -
  from assms have "l \<in> set (map snd letter_pairs)" by force
  with small_not_capital have "l \<notin> set (map fst letter_pairs)" by blast
  then show ?thesis by (rule toLowerCase_char_other)
qed

lemma same_letter_iff: "same_letter x y \<longleftrightarrow> toLowerCase_char x = toLowerCase_char y"
proof
  assume "same_letter x y"
  then consider "x = y" | "(x, y) \<in> set letter_pairs" | "(y, x) \<in> set letter_pairs"
    unfolding same_letter_def by blast
  then show "toLowerCase_char x = toLowerCase_char y"
  proof cases
    case 1
    then show ?thesis by simp
  next
    case 2
    then show ?thesis
      by (simp add: toLowerCase_char_capital [OF 2] toLowerCase_char_small [OF 2])
  next
    case 3
    then show ?thesis
      by (simp add: toLowerCase_char_capital [OF 3] toLowerCase_char_small [OF 3])
  qed
next
  assume eq: "toLowerCase_char x = toLowerCase_char y"
  have inj: "inj_on snd (set letter_pairs)"
    using distinct_smalls by (simp add: distinct_map)
  show "same_letter x y"
  proof (cases "x \<in> set (map fst letter_pairs)")
    case True
    then obtain l where xl: "(x, l) \<in> set letter_pairs" by auto
    then have lx: "toLowerCase_char x = l" by (rule toLowerCase_char_capital)
    show ?thesis
    proof (cases "y \<in> set (map fst letter_pairs)")
      case True
      then obtain m where ym: "(y, m) \<in> set letter_pairs" by auto
      then have "toLowerCase_char y = m" by (rule toLowerCase_char_capital)
      with eq lx have "m = l" by simp
      with ym have yl: "(y, l) \<in> set letter_pairs" by simp
      have "(x, l) = (y, l)"
        by (rule inj_onD [OF inj _ xl yl]) simp
      then show ?thesis by (simp add: same_letter_def)
    next
      case False
      then have "toLowerCase_char y = y" by (rule toLowerCase_char_other)
      with eq lx xl show ?thesis by (simp add: same_letter_def)
    qed
  next
    case False
    then have lx: "toLowerCase_char x = x" by (rule toLowerCase_char_other)
    show ?thesis
    proof (cases "y \<in> set (map fst letter_pairs)")
      case True
      then obtain m where ym: "(y, m) \<in> set letter_pairs" by auto
      then have "toLowerCase_char y = m" by (rule toLowerCase_char_capital)
      with eq lx ym show ?thesis by (simp add: same_letter_def)
    next
      case False
      then have "toLowerCase_char y = y" by (rule toLowerCase_char_other)
      with eq lx show ?thesis by (simp add: same_letter_def)
    qed
  qed
qed

lemma list_all2_same_letter:
  "list_all2 same_letter xs ys \<longleftrightarrow> map toLowerCase_char xs = map toLowerCase_char ys"
proof -
  have e: "same_letter = (\<lambda>x y. toLowerCase_char x = toLowerCase_char y)"
    by (intro ext) (rule same_letter_iff)
  show ?thesis unfolding e by (rule list_all2_map_eq)
qed

lemma contains_ci_sublist: "contains_ci s t \<longleftrightarrow> sublist (toLowerCase t) (toLowerCase s)"
proof
  assume "contains_ci s t"
  then obtain pre mid post where s: "s = pre @ mid @ post"
    and m: "map toLowerCase_char mid = map toLowerCase_char t"
    unfolding contains_ci_def list_all2_same_letter by blast
  have "toLowerCase s = toLowerCase pre @ toLowerCase t @ toLowerCase post"
    using s m by (simp add: toLowerCase_def)
  then show "sublist (toLowerCase t) (toLowerCase s)"
    unfolding sublist_def by blast
next
  assume "sublist (toLowerCase t) (toLowerCase s)"
  then obtain ps ss where "map toLowerCase_char s = ps @ map toLowerCase_char t @ ss"
    unfolding sublist_def toLowerCase_def by blast
  then obtain pre rest where s1: "s = pre @ rest"
    and r: "map toLowerCase_char rest = map toLowerCase_char t @ ss"
    by (metis map_eq_append_conv)
  from r obtain mid post where s2: "rest = mid @ post"
    and m: "map toLowerCase_char mid = map toLowerCase_char t"
    by (metis map_eq_append_conv)
  show "contains_ci s t"
    unfolding contains_ci_def list_all2_same_letter using s1 s2 m by blast
qed

lemma filteredSounds_matches: "filteredSounds sounds term = filter (matches term) sounds"
  unfolding filteredSounds_def matches_def
  by (rule filter_cong) (auto simp: includes_js_sublist contains_ci_sublist list_ex_iff)

section \<open>Facts about the builder loop\<close>

lemma pushSound_skip: "\<not> endsWith f ''.mp3'' \<Longrightarrow> pushSound fs acc f = Inr acc"
  by (simp add: pushSound_def)

lemma pushSound_Inr:
  assumes "pushSound fs acc f = Inr res" and "endsWith f ''.mp3''"
  shows "\<exists>e. res = acc @ [e] \<and> built_from fs (length acc) f e"
  using assms
  by (auto simp: pushSound_def built_from_def sidecar_path_def text_of_def
           split: option.splits list.splits)

lemma pushSound_malformed:
  assumes "endsWith f ''.mp3''" and "sidecar_malformed fs f"
  shows "isl (pushSound fs acc f)"
  using assms
  by (auto simp: pushSound_def sidecar_malformed_def sidecar_path_def text_of_def
           split: option.splits list.splits)

lemma for_files_built:
  "for_files fs files acc = Inr res \<Longrightarrow>
     \<exists>new. res = acc @ new \<and>
       length new = length (filter (\<lambda>f. endsWith f ''.mp3'') files) \<and>
       (\<forall>i < length new.
          built_from fs (length acc + i) (filter (\<lambda>f. endsWith f ''.mp3'') files ! i) (new ! i))"
proof (induction files arbitrary: acc)
  case Nil
  then show ?case by simp
next
  case (Cons f files)
  from Cons.prems obtain acc' where p: "pushSound fs acc f = Inr acc'"
    and r: "for_files fs files acc' = Inr res"
    by (auto split: sum.splits)
  from Cons.IH [OF r] obtain new where res: "res = acc' @ new"
    and len: "length new = length (filter (\<lambda>f. endsWith f ''.mp3'') files)"
    and built: "\<forall>i < length new.
          built_from fs (length acc' + i) (filter (\<lambda>f. endsWith f ''.mp3'') files ! i) (new ! i)"
    by blast
  show ?case
  proof (cases "endsWith f ''.mp3''")
    case False
    with p have "acc' = acc" by (simp add: pushSound_skip)
    with res len built False show ?thesis by auto
  next
    case True
    from pushSound_Inr [OF p True] obtain e where acc': "acc' = acc @ [e]"
      and e: "built_from fs (length acc) f e" by blast
    have "res = acc @ (e # new)" using res acc' by simp
    moreover have "length (e # new) = length (filter (\<lambda>f. endsWith f ''.mp3'') (f # files))"
      using len True by simp
    moreover have "\<forall>i < length (e # new).
        built_from fs (length acc + i) (filter (\<lambda>f. endsWith f ''.mp3'') (f # files) ! i) ((e # new) ! i)"
    proof (intro allI impI)
      fix i assume i: "i < length (e # new)"
      show "built_from fs (length acc + i) (filter (\<lambda>f. endsWith f ''.mp3'') (f # files) ! i) ((e # new) ! i)"
      proof (cases i)
        case 0
        with e True show ?thesis by simp
      next
        case (Suc j)
        with i have "j < length new" by simp
        with built have "built_from fs (length acc' + j) (filter (\<lambda>f. endsWith f ''.mp3'') files ! j) (new ! j)"
          by blast
        with Suc True acc' show ?thesis by simp
      qed
    qed
    ultimately show ?thesis by blast
  qed
qed

lemma for_files_malformed:
  assumes "f \<in> set files" and "endsWith f ''.mp3''" and "sidecar_malformed fs f"
  shows "isl (for_files fs files acc)"
  using assms
proof (induction files arbitrary: acc)
  case Nil
  then show ?case by simp
next
  case (Cons g files)
  show ?case
  proof (cases "pushSound fs acc g")
    case (Inl e)
    then show ?thesis by simp
  next
    case (Inr acc')
    have "g \<noteq> f"
    proof
      assume "g = f"
      with Cons.prems have "isl (pushSound fs acc g)" by (simp add: pushSound_malformed)
      with Inr show False by simp
    qed
    with Cons.prems have "f \<in> set files" by simp
    from Cons.IH [OF this Cons.prems(2,3)] Inr show ?thesis by simp
  qed
qed

lemma generateApi_total: "\<exists>sounds. generateApi fs = Inr sounds"
  by (simp add: generateApi_def split: sum.splits)

lemma generateApi_cases:
  assumes "generateApi fs = Inr sounds"
  shows "sounds = [] \<or> generateApi_try fs = Inr sounds"
  using assms by (auto simp: generateApi_def split: sum.splits)

lemma generateApi_try_built:
  assumes "generateApi_try fs = Inr sounds"
  shows "\<exists>files. fs_readdir fs ''./assets/music'' = Some files \<and>
       length sounds = length (filter (\<lambda>f. endsWith f ''.mp3'') files) \<and>
       (\<forall>i < length sounds.
          built_from fs i (filter (\<lambda>f. endsWith f ''.mp3'') files ! i) (sounds ! i))"
proof -
  from assms obtain files where l: "fs_readdir fs ''./assets/music'' = Some files"
    and r: "for_files fs files [] = Inr sounds"
    by (auto simp: generateApi_try_def split: option.splits)
  from for_files_built [OF r] l show ?thesis by auto
qed

lemma for_files_same:
  assumes "\<forall>f \<in> set files. endsWith f ''.mp3'' \<longrightarrow>
             fs_file fs1 (sidecar_path f) = fs_file fs2 (sidecar_path f)"
  shows "for_files fs1 files acc = for_files fs2 files acc"
  using assms
proof (induction files arbitrary: acc)
  case Nil
  then show ?case by simp
next
  case (Cons f files)
  have "pushSound fs1 acc f = pushSound fs2 acc f"
    using Cons.prems by (simp add: pushSound_def text_of_def sidecar_path_def)
  with Cons show ?case by (simp split: sum.splits)
qed

section \<open>The claims\<close>

lemma generateApi_fs_demo: "generateApi fs_demo = Inr [cool_beat, a_b_c]"
  by code_simp

lemma generateApi_try_fs_demo: "generateApi_try fs_demo = Inr [cool_beat, a_b_c]"
  by code_simp

lemma generateApi_fs_empty: "generateApi fs_empty = Inr []"
  by code_simp

lemma generateApi_fs_nodir: "generateApi fs_nodir = Inr []"
  by code_simp

lemma readdir_fs_demo:
  "fs_readdir fs_demo ''./assets/music'' = Some [''notes.md'', ''cool_beat.mp3'', ''a_b_c.mp3'']"
  by (simp add: fs_demo_def)

lemma readdir_fs_broken:
  "fs_readdir fs_broken ''./assets/music'' = Some [''cool_beat.mp3'', ''b.mp3'']"
  by (simp add: fs_broken_def)

lemma contains_ci_includes:
  "contains_ci s t \<longleftrightarrow> includes_js (toLowerCase s) (toLowerCase t)"
  by (simp add: contains_ci_sublist includes_js_sublist)

lemma matches_code:
  "matches term sound \<longleftrightarrow>
     includes_js (toLowerCase (name sound)) (toLowerCase term) \<or>
     list_ex (\<lambda>tag. includes_js (toLowerCase tag) (toLowerCase term)) (tags sound)"
  by (simp add: matches_def contains_ci_includes list_ex_iff)

text \<open>
  Claim C1. A request to \<open>/sounds\<close> without a search term against an empty catalog should
  be answered 404 with the body \<open>{error: "No sounds found"}\<close>. The handler tests
  \<open>sounds != null\<close>, which holds of the empty array too: on the empty music directory,
  and on a music directory that cannot be enumerated, the answer is 200 with the empty
  JSON array.
\<close>

theorem get_sounds_empty_catalog_no_term:
  "generateApi fs_empty = Inr [] \<and>
   get_sounds fs_empty None = Inr \<lparr> status = 200, headers = [], body = Json_sounds [] \<rparr> \<and>
   generateApi fs_nodir = Inr [] \<and>
   get_sounds fs_nodir None = Inr \<lparr> status = 200, headers = [], body = Json_sounds [] \<rparr>"
  by (simp add: generateApi_fs_empty generateApi_fs_nodir get_sounds_def truthy_def
      not_null_def c_json_def)

text \<open>
  Claim C2, as stated, at a concrete input: in \<open>fs_broken\<close> the audio file \<open>b.mp3\<close> has
  no sidecar, yet the builder returns normally (with the empty list) and the request is
  answered, so the failure does not leave the builder.
\<close>

theorem sidecar_failure_counterexample:
  "endsWith ''b.mp3'' ''.mp3'' \<and> sidecar_malformed fs_broken ''b.mp3'' \<and>
   generateApi fs_broken = Inr [] \<and> \<not> isl (get_sounds fs_broken None)"
  by code_simp

text \<open>
  Claim C2, amended. When some audio file of the listing has a sidecar that is missing or
  lacks a second line, the failure is not caught at the entry: the \<open>try\<close> block as a whole
  throws, and the entries built before are dropped. The \<open>catch\<close> clause of the builder
  turns this into the empty list, so the builder returns normally and the request gets a
  structured answer, which for a request carrying a search term is 404 with
  \<open>{error: "No sounds found"}\<close>.
\<close>

theorem sidecar_failure_caught_by_builder:
  assumes "fs_readdir fs ''./assets/music'' = Some files"
    and "f \<in> set files" and "endsWith f ''.mp3''" and "sidecar_malformed fs f"
  shows "isl (generateApi_try fs) \<and> generateApi fs = Inr [] \<and>
         \<not> isl (get_sounds fs search) \<and>
         (truthy search \<longrightarrow>
            get_sounds fs search = Inr (c_json (Json_error ''No sounds found'') 404))"
proof -
  have t: "isl (generateApi_try fs)"
    using assms by (simp add: generateApi_try_def for_files_malformed)
  then have g: "generateApi fs = Inr []"
    by (auto simp: generateApi_def split: sum.splits)
  have "\<not> isl (get_sounds fs search)"
    using g by (simp add: get_sounds_def split: option.splits)
  moreover have "truthy search \<longrightarrow>
      get_sounds fs search = Inr (c_json (Json_error ''No sounds found'') 404)"
    using g by (auto simp: get_sounds_def filteredSounds_def truthy_def split: option.splits)
  ultimately show ?thesis using t g by blast
qed

theorem sidecar_failure_caught_by_builder_witness:
  "fs_readdir fs_broken ''./assets/music'' = Some [''cool_beat.mp3'', ''b.mp3''] \<and>
   ''b.mp3'' \<in> set [''cool_beat.mp3'', ''b.mp3''] \<and> endsWith ''b.mp3'' ''.mp3'' \<and>
   sidecar_malformed fs_broken ''b.mp3'' \<and>
   isl (generateApi_try fs_broken) \<and> generateApi fs_broken = Inr [] \<and>
   \<not> isl (get_sounds fs_broken (Some ''beat'')) \<and> truthy (Some ''beat'') \<and>
   get_sounds fs_broken (Some ''beat'') = Inr (c_json (Json_error ''No sounds found'') 404)"
proof -
  have h1: "fs_readdir fs_broken ''./assets/music'' = Some [''cool_beat.mp3'', ''b.mp3'']"
    by (rule readdir_fs_broken)
  have h2: "''b.mp3'' \<in> set [''cool_beat.mp3'', ''b.mp3'']" by simp
  have h3: "endsWith ''b.mp3'' ''.mp3''" by (simp add: endsWith_def)
  have h4: "sidecar_malformed fs_broken ''b.mp3''" by code_simp
  have h5: "truthy (Some ''beat'')" by (simp add: truthy_def)
  show ?thesis
    using sidecar_failure_caught_by_builder [OF h1 h2 h3 h4, of "Some ''beat''"] h1 h2 h3 h4 h5
    by simp
qed

text \<open>
  Claim C3, as stated, at its own input: the title derived for \<open>a_b_c.mp3\<close> is not
  \<open>"A b_c"\<close>.
\<close>

theorem title_a_b_c_counterexample: "title ''a_b_c.mp3'' \<noteq> ''A b_c''"
  by code_simp

lemma title_two_words:
  assumes "CHR ''_'' \<notin> set u" and "CHR '' '' \<notin> set (u @ v)" and "CHR ''.'' \<notin> set (u @ v)"
  shows "title (u @ ''_'' @ v @ ''.mp3'') =
           toUpperCase (charAt u 0) @ slice u 1 @ '' '' @ toUpperCase (charAt v 0) @ slice v 1"
proof -
  have dot: "CHR ''.'' \<notin> set (u @ ''_'' @ v)" using assms by simp
  have "replace_js (u @ ''_'' @ v @ ''.mp3'') ''.mp3'' '''' = u @ ''_'' @ v"
    using replace_js_mp3 [OF dot, of "''''"] by simp
  moreover have "replace_js (u @ ''_'' @ v) ''_'' '' '' = u @ '' '' @ v"
    using replace_js_first_char [of "CHR ''_''" u v "'' ''"] assms by simp
  moreover have "split_js (u @ '' '' @ v) '' '' = [u, v]"
    using split_at_first_sep [of "CHR '' ''" u v] split_at_no_sep [of "CHR '' ''" v] assms
    by (simp add: split_js_def)
  ultimately show ?thesis by (simp add: title_def)
qed

text \<open>
  Claim C3, amended. Only the first underscore of the file name is replaced by a space;
  the text is then split at that space and each of the two words gets its first character
  upper-cased, so the later underscores stay and \<open>a_b_c.mp3\<close> yields \<open>"A B_c"\<close>.
\<close>

theorem title_first_underscore_only:
  assumes "CHR ''_'' \<notin> set u" and "CHR '' '' \<notin> set (u @ v)" and "CHR ''.'' \<notin> set (u @ v)"
  shows "title (u @ ''_'' @ v @ ''.mp3'') =
           toUpperCase (charAt u 0) @ slice u 1 @ '' '' @ toUpperCase (charAt v 0) @ slice v 1 \<and>
         title ''a_b_c.mp3'' = ''A B_c''"
proof -
  have "title ''a_b_c.mp3'' = ''A B_c''" by code_simp
  with title_two_words [OF assms] show ?thesis by blast
qed

theorem title_first_underscore_only_witness:
  "CHR ''_'' \<notin> set ''a'' \<and> CHR '' '' \<notin> set (''a'' @ ''b_c'') \<and> CHR ''.'' \<notin> set (''a'' @ ''b_c'') \<and>
   title (''a'' @ ''_'' @ ''b_c'' @ ''.mp3'') =
     toUpperCase (charAt ''a'' 0) @ slice ''a'' 1 @ '' '' @ toUpperCase (charAt ''b_c'' 0) @ slice ''b_c'' 1 \<and>
   title ''a_b_c.mp3'' = ''A B_c''"
proof -
  have h1: "CHR ''_'' \<notin> set ''a''" by simp
  have h2: "CHR '' '' \<notin> set (''a'' @ ''b_c'')" by simp
  have h3: "CHR ''.'' \<notin> set (''a'' @ ''b_c'')" by simp
  show ?thesis
    using title_first_underscore_only [OF h1 h2 h3] h1 h2 h3 by blast
qed

lemma built_from_fields:
  assumes "built_from fs n f s"
  shows "id_no s = n + 1" and "name s = title f" and "audio s = ''/audio/'' @ f"
    and "tags s \<noteq> []"
  using assms by (auto simp: built_from_def split_js_ne)

lemma built_from_sidecar:
  assumes "built_from fs n f s" and "fs_file fs (sidecar_path f) = Some t"
    and "split_js t newline = line0 # line1 # rest"
  shows "description s = line0 \<and> tags s = split_js line1 ''-''"
  using assms by (auto simp: built_from_def)

lemma split_Desc: "split_js ''Desc\<newline>A-B-C'' newline = [''Desc'', ''A-B-C'']"
  by code_simp

lemma split_A_B_C: "split_js ''A-B-C'' ''-'' = [''A'', ''B'', ''C'']"
  by code_simp

text \<open>
  Claim C4. When the build completes, the entry of an audio file whose sidecar holds the
  two lines \<open>Desc\<close> and \<open>A-B-C\<close> has the description \<open>"Desc"\<close>, the tags \<open>["A","B","C"]\<close>
  (the second line split at \<open>-\<close>, nothing trimmed) and the name that the title derivation gives
  for its file name; for \<open>cool_beat.mp3\<close> that name is \<open>"Cool Beat"\<close>. Entries are addressed
  by the position of their file among the \<open>.mp3\<close> names of the listing.
\<close>

theorem entry_from_sidecar:
  assumes "generateApi_try fs = Inr sounds"
    and "fs_readdir fs ''./assets/music'' = Some files"
    and "i < length (filter (\<lambda>f. endsWith f ''.mp3'') files)"
    and "fs_file fs (sidecar_path (filter (\<lambda>f. endsWith f ''.mp3'') files ! i)) =
           Some ''Desc\<newline>A-B-C''"
  shows "i < length sounds \<and>
         description (sounds ! i) = ''Desc'' \<and>
         tags (sounds ! i) = [''A'', ''B'', ''C''] \<and>
         name (sounds ! i) = title (filter (\<lambda>f. endsWith f ''.mp3'') files ! i) \<and>
         title ''cool_beat.mp3'' = ''Cool Beat''"
proof -
  let ?mp3 = "filter (\<lambda>f. endsWith f ''.mp3'') files"
  from generateApi_try_built [OF assms(1)] assms(2)
  have len: "length sounds = length ?mp3"
    and built: "\<forall>k < length sounds. built_from fs k (?mp3 ! k) (sounds ! k)"
    by auto
  from len assms(3) have i: "i < length sounds" by simp
  with built have b: "built_from fs i (?mp3 ! i) (sounds ! i)" by blast
  from built_from_sidecar [OF b assms(4)] split_Desc
  have "description (sounds ! i) = ''Desc'' \<and> tags (sounds ! i) = split_js ''A-B-C'' ''-''"
    by simp
  moreover have "name (sounds ! i) = title (?mp3 ! i)"
    using b by (rule built_from_fields)
  moreover have "title ''cool_beat.mp3'' = ''Cool Beat''" by code_simp
  ultimately show ?thesis using i split_A_B_C by simp
qed

theorem entry_from_sidecar_witness:
  "generateApi_try fs_demo = Inr [cool_beat, a_b_c] \<and>
   fs_readdir fs_demo ''./assets/music'' = Some [''notes.md'', ''cool_beat.mp3'', ''a_b_c.mp3''] \<and>
   filter (\<lambda>f. endsWith f ''.mp3'') [''notes.md'', ''cool_beat.mp3'', ''a_b_c.mp3''] ! 0 = ''cool_beat.mp3'' \<and>
   fs_file fs_demo (sidecar_path ''cool_beat.mp3'') = Some ''Desc\<newline>A-B-C'' \<and>
   description ([cool_beat, a_b_c] ! 0) = ''Desc'' \<and>
   tags ([cool_beat, a_b_c] ! 0) = [''A'', ''B'', ''C''] \<and>
   name ([cool_beat, a_b_c] ! 0) = title ''cool_beat.mp3'' \<and>
   title ''cool_beat.mp3'' = ''Cool Beat''"
proof -
  let ?files = "[''notes.md'', ''cool_beat.mp3'', ''a_b_c.mp3'']"
  have e1: "\<not> endsWith ''notes.md'' ''.mp3''" by code_simp
  have e2: "endsWith ''cool_beat.mp3'' ''.mp3''" by code_simp
  have e3: "endsWith ''a_b_c.mp3'' ''.mp3''" by code_simp
  have mp3: "filter (\<lambda>f. endsWith f ''.mp3'') ?files = [''cool_beat.mp3'', ''a_b_c.mp3'']"
    by (simp add: e1 e2 e3)
  have h3: "0 < length (filter (\<lambda>f. endsWith f ''.mp3'') ?files)"
    by (simp add: e1 e2 e3)
  have side: "fs_file fs_demo (sidecar_path ''cool_beat.mp3'') = Some ''Desc\<newline>A-B-C''"
    by code_simp
  have h4: "fs_file fs_demo (sidecar_path (filter (\<lambda>f. endsWith f ''.mp3'') ?files ! 0)) =
      Some ''Desc\<newline>A-B-C''"
    using side by (simp add: e1 e2 e3)
  show ?thesis
    using entry_from_sidecar [OF generateApi_try_fs_demo readdir_fs_demo h3 h4]
      generateApi_try_fs_demo readdir_fs_demo side
    by (simp add: e1 e2 e3)
qed

text \<open>
  Claim C5. For a non-empty search term the \<open>/sounds\<close> route answers with exactly the entries
  of the catalog, in catalog order, whose name or one of whose tags contains the term as a
  case-insensitive substring (and with the 404 error body when there is none); the filter
  of the source is that selection. Without a term the body is the whole catalog. The term
  \<open>"eat"\<close> matches the name \<open>"Cool Beat"\<close>, the term \<open>"COOL b"\<close> selects the entry named
  \<open>"Cool Beat"\<close>, and the term \<open>"fI"\<close> selects an entry by its tag \<open>"Fi"\<close>. The term, the
  names and the tags are ASCII text, on which the case mapping of the model is the one of
  JavaScript.
\<close>

theorem filter_matches:
  assumes "generateApi fs = Inr sounds" and "is_ascii term" and "list_all ascii_sound sounds"
  shows "(term \<noteq> [] \<longrightarrow>
            get_sounds fs (Some term) =
              Inr (c_json
                (if filter (matches term) sounds = [] then Json_error ''No sounds found''
                 else Json_sounds (filter (matches term) sounds))
                (if filter (matches term) sounds = [] then 404 else 200))) \<and>
         (\<exists>r. get_sounds fs None = Inr r \<and> body r = Json_sounds sounds) \<and>
         filteredSounds sounds term = filter (matches term) sounds \<and>
         matches ''eat'' (s \<lparr> name := ''Cool Beat'' \<rparr>) \<and>
         filteredSounds [cool_beat, a_b_c] ''COOL b'' = [cool_beat] \<and>
         filteredSounds [a_b_c \<lparr> tags := [''Lo'', ''Fi''] \<rparr>, cool_beat] ''fI'' =
           [a_b_c \<lparr> tags := [''Lo'', ''Fi''] \<rparr>]"
proof -
  have "term \<noteq> [] \<longrightarrow>
            get_sounds fs (Some term) =
              Inr (c_json
                (if filter (matches term) sounds = [] then Json_error ''No sounds found''
                 else Json_sounds (filter (matches term) sounds))
                (if filter (matches term) sounds = [] then 404 else 200))"
    using assms(1) by (simp add: get_sounds_def truthy_def filteredSounds_matches)
  moreover have "\<exists>r. get_sounds fs None = Inr r \<and> body r = Json_sounds sounds"
    using assms(1) by (simp add: get_sounds_def truthy_def not_null_def c_json_def)
  moreover have "includes_js (toLowerCase ''Cool Beat'') (toLowerCase ''eat'')"
    by code_simp
  then have "matches ''eat'' (s \<lparr> name := ''Cool Beat'' \<rparr>)"
    by (simp add: matches_code)
  moreover have "filteredSounds [cool_beat, a_b_c] ''COOL b'' = [cool_beat]"
    by code_simp
  moreover have "filteredSounds [a_b_c \<lparr> tags := [''Lo'', ''Fi''] \<rparr>, cool_beat] ''fI'' =
           [a_b_c \<lparr> tags := [''Lo'', ''Fi''] \<rparr>]"
    by code_simp
  ultimately show ?thesis by (simp only: filteredSounds_matches simp_thms)
qed

lemma filter_COOL_demo: "filteredSounds [cool_beat, a_b_c] ''COOL'' = [cool_beat]"
  by code_simp

lemma ascii_demo: "is_ascii ''COOL'' \<and> list_all ascii_sound [cool_beat, a_b_c]"
  by code_simp

theorem filter_matches_witness:
  "generateApi fs_demo = Inr [cool_beat, a_b_c] \<and> is_ascii ''COOL'' \<and>
   list_all ascii_sound [cool_beat, a_b_c] \<and> ''COOL'' \<noteq> [] \<and>
   get_sounds fs_demo (Some ''COOL'') = Inr (c_json (Json_sounds [cool_beat]) 200) \<and>
   filter (matches ''COOL'') [cool_beat, a_b_c] = [cool_beat]"
proof -
  have m: "filter (matches ''COOL'') [cool_beat, a_b_c] = [cool_beat]"
    using filter_COOL_demo by (simp only: filteredSounds_matches)
  have h: "''COOL'' \<noteq> []" by simp
  have a1: "is_ascii ''COOL''" using ascii_demo by blast
  have a2: "list_all ascii_sound [cool_beat, a_b_c]" using ascii_demo by blast
  have "get_sounds fs_demo (Some ''COOL'') =
      Inr (c_json
        (if filter (matches ''COOL'') [cool_beat, a_b_c] = [] then Json_error ''No sounds found''
         else Json_sounds (filter (matches ''COOL'') [cool_beat, a_b_c]))
        (if filter (matches ''COOL'') [cool_beat, a_b_c] = [] then 404 else 200))"
    using filter_matches [OF generateApi_fs_demo a1 a2, of cool_beat] h by blast
  then have "get_sounds fs_demo (Some ''COOL'') = Inr (c_json (Json_sounds [cool_beat]) 200)"
    unfolding m by simp
  with m h a1 a2 generateApi_fs_demo show ?thesis by blast
qed

text \<open>
  Claim C6. For a request with a non-empty search term, when the filter keeps no entry the
  answer is 404 with the body \<open>{error: "No sounds found"}\<close>; it is the very answer the same
  request gets against an empty catalog, so the response does not tell the two cases apart.
\<close>

theorem no_match_is_404:
  assumes "term \<noteq> []" and "generateApi fs = Inr sounds" and "filteredSounds sounds term = []"
    and "generateApi fs0 = Inr []"
  shows "get_sounds fs (Some term) =
           Inr \<lparr> status = 404, headers = [], body = Json_error ''No sounds found'' \<rparr> \<and>
         get_sounds fs0 (Some term) = get_sounds fs (Some term)"
  using assms by (simp add: get_sounds_def truthy_def c_json_def filteredSounds_def)

lemma filter_zz_demo: "filteredSounds [cool_beat, a_b_c] ''zz'' = []"
  by code_simp

theorem no_match_is_404_witness:
  "''zz'' \<noteq> [] \<and> generateApi fs_demo = Inr [cool_beat, a_b_c] \<and>
   filteredSounds [cool_beat, a_b_c] ''zz'' = [] \<and> generateApi fs_empty = Inr [] \<and>
   get_sounds fs_demo (Some ''zz'') =
     Inr \<lparr> status = 404, headers = [], body = Json_error ''No sounds found'' \<rparr> \<and>
   get_sounds fs_empty (Some ''zz'') = get_sounds fs_demo (Some ''zz'')"
proof -
  have h1: "''zz'' \<noteq> []" by simp
  show ?thesis
    using no_match_is_404 [OF h1 generateApi_fs_demo filter_zz_demo generateApi_fs_empty]
      generateApi_fs_demo filter_zz_demo generateApi_fs_empty
    by simp
qed

text \<open>
  Claim C7. In every catalog the builder returns, the ids are \<open>1, 2, ..., n\<close> in list order,
  hence unique, 1-based and contiguous; when the \<open>try\<close> block completes, the entries follow
  the order of the \<open>.mp3\<close> names in the directory listing, the other names being skipped
  without using up an id.
\<close>

theorem ids_contiguous:
  assumes "generateApi fs = Inr sounds"
  shows "map id_no sounds = [1 ..< length sounds + 1] \<and>
         distinct (map id_no sounds) \<and>
         (generateApi_try fs = Inr sounds \<longrightarrow>
            (\<exists>files. fs_readdir fs ''./assets/music'' = Some files \<and>
               map audio sounds =
                 map (\<lambda>f. ''/audio/'' @ f) (filter (\<lambda>f. endsWith f ''.mp3'') files)))"
proof -
  have ids: "map id_no sounds = [1 ..< length sounds + 1]"
  proof (cases "sounds = []")
    case True
    then show ?thesis by simp
  next
    case False
    with generateApi_cases [OF assms] have t: "generateApi_try fs = Inr sounds" by simp
    from generateApi_try_built [OF t] obtain files where
      built: "\<forall>i < length sounds.
          built_from fs i (filter (\<lambda>f. endsWith f ''.mp3'') files ! i) (sounds ! i)"
      by blast
    show ?thesis
    proof (rule nth_equalityI)
      show "length (map id_no sounds) = length [1 ..< length sounds + 1]"
        by (simp del: upt_Suc)
    next
      fix i assume "i < length (map id_no sounds)"
      then have i: "i < length sounds" by simp
      with built have "id_no (sounds ! i) = i + 1"
        using built_from_fields(1) by blast
      with i show "map id_no sounds ! i = [1 ..< length sounds + 1] ! i"
        by (simp add: nth_upt del: upt_Suc)
    qed
  qed
  then have "distinct (map id_no sounds)" by (simp del: upt_Suc)
  moreover have "generateApi_try fs = Inr sounds \<longrightarrow>
            (\<exists>files. fs_readdir fs ''./assets/music'' = Some files \<and>
               map audio sounds =
                 map (\<lambda>f. ''/audio/'' @ f) (filter (\<lambda>f. endsWith f ''.mp3'') files))"
  proof
    assume t: "generateApi_try fs = Inr sounds"
    from generateApi_try_built [OF t] obtain files where
      l: "fs_readdir fs ''./assets/music'' = Some files"
      and len: "length sounds = length (filter (\<lambda>f. endsWith f ''.mp3'') files)"
      and built: "\<forall>i < length sounds.
          built_from fs i (filter (\<lambda>f. endsWith f ''.mp3'') files ! i) (sounds ! i)"
      by blast
    have "map audio sounds = map (\<lambda>f. ''/audio/'' @ f) (filter (\<lambda>f. endsWith f ''.mp3'') files)"
    proof (rule nth_equalityI)
      show "length (map audio sounds) =
          length (map (\<lambda>f. ''/audio/'' @ f) (filter (\<lambda>f. endsWith f ''.mp3'') files))"
        using len by simp
    next
      fix i assume "i < length (map audio sounds)"
      then have i: "i < length sounds" by simp
      with built have "audio (sounds ! i) = ''/audio/'' @ filter (\<lambda>f. endsWith f ''.mp3'') files ! i"
        using built_from_fields(3) by blast
      with i len show "map audio sounds ! i =
          map (\<lambda>f. ''/audio/'' @ f) (filter (\<lambda>f. endsWith f ''.mp3'') files) ! i"
        by simp
    qed
    with l show "\<exists>files. fs_readdir fs ''./assets/music'' = Some files \<and>
               map audio sounds =
                 map (\<lambda>f. ''/audio/'' @ f) (filter (\<lambda>f. endsWith f ''.mp3'') files)"
      by blast
  qed
  ultimately show ?thesis using ids by blast
qed

theorem ids_contiguous_witness:
  "generateApi fs_demo = Inr [cool_beat, a_b_c] \<and>
   map id_no [cool_beat, a_b_c] = [1, 2] \<and>
   distinct (map id_no [cool_beat, a_b_c]) \<and>
   generateApi_try fs_demo = Inr [cool_beat, a_b_c] \<and>
   fs_readdir fs_demo ''./assets/music'' = Some [''notes.md'', ''cool_beat.mp3'', ''a_b_c.mp3''] \<and>
   map audio [cool_beat, a_b_c] = [''/audio/cool_beat.mp3'', ''/audio/a_b_c.mp3'']"
proof -
  have e1: "\<not> endsWith ''notes.md'' ''.mp3''" by code_simp
  have e2: "endsWith ''cool_beat.mp3'' ''.mp3''" by code_simp
  have e3: "endsWith ''a_b_c.mp3'' ''.mp3''" by code_simp
  show ?thesis
    using ids_contiguous [OF generateApi_fs_demo] generateApi_fs_demo generateApi_try_fs_demo
      readdir_fs_demo
    by (simp add: e1 e2 e3)
qed

text \<open>
  Claim C8. The catalog depends on the file system only through the listing of the music
  directory and the files of the description directory: two file-system states that agree
  on these (whatever else differs) give the same list of entries, ids included, and the
  same answer of the \<open>/sounds\<close> route. In particular, building twice on an unchanged file
  system yields the same entries.
\<close>

theorem generateApi_deterministic:
  assumes "fs_readdir fs1 ''./assets/music'' = fs_readdir fs2 ''./assets/music''"
    and "\<forall>p. fs_file fs1 (''./assets/description/'' @ p) =
             fs_file fs2 (''./assets/description/'' @ p)"
  shows "generateApi fs1 = generateApi fs2 \<and> get_sounds fs1 search = get_sounds fs2 search"
proof -
  have "for_files fs1 files [] = for_files fs2 files []" for files
    by (rule for_files_same) (use assms(2) in \<open>simp add: sidecar_path_def\<close>)
  then have "generateApi_try fs1 = generateApi_try fs2"
    using assms(1) by (simp add: generateApi_try_def split: option.splits)
  then have "generateApi fs1 = generateApi fs2"
    by (simp add: generateApi_def)
  then show ?thesis by (simp add: get_sounds_def)
qed

theorem generateApi_deterministic_witness:
  "fs_readdir fs_demo ''./assets/music'' = fs_readdir fs_demo_other ''./assets/music'' \<and>
   fs_file fs_demo ''./assets/music/cool_beat.mp3'' \<noteq>
     fs_file fs_demo_other ''./assets/music/cool_beat.mp3'' \<and>
   generateApi fs_demo = generateApi fs_demo_other \<and>
   get_sounds fs_demo (Some ''eat'') = get_sounds fs_demo_other (Some ''eat'')"
proof -
  have h1: "fs_readdir fs_demo ''./assets/music'' = fs_readdir fs_demo_other ''./assets/music''"
    by (simp add: fs_demo_other_def)
  have h2: "\<forall>p. fs_file fs_demo (''./assets/description/'' @ p) =
             fs_file fs_demo_other (''./assets/description/'' @ p)"
    by (simp add: fs_demo_other_def)
  have d: "fs_file fs_demo ''./assets/music/cool_beat.mp3'' \<noteq>
     fs_file fs_demo_other ''./assets/music/cool_beat.mp3''"
    by (simp add: fs_demo_other_def fs_demo_def)
  show ?thesis
    using generateApi_deterministic [OF h1 h2, of "Some ''eat''"] h1 d by blast
qed

text \<open>
  Claim C9. \<open>/audio/{fileName}\<close> answers 404 with \<open>{error: "Audio file not found"}\<close> exactly
  when the music directory has no such file, and otherwise streams the bytes of the file
  with the content type \<open>audio/mpeg\<close>; \<open>/cover/{fileName}\<close> does the same over the cover
  directory with \<open>image/jpeg\<close> and \<open>{error: "Cover image not found"}\<close>. The answer depends
  on that one file only, so not on the catalog.
\<close>

theorem download_routes:
  "(get_audio fs fileName =
      \<lparr> status = 404, headers = [], body = Json_error ''Audio file not found'' \<rparr>
    \<longleftrightarrow> fs_file fs (''./assets/music/'' @ fileName) = None) \<and>
   (fs_file fs (''./assets/music/'' @ fileName) = Some bytes \<longrightarrow>
      get_audio fs fileName =
        \<lparr> status = 200, headers = [(''Content-Type'', ''audio/mpeg'')],
          body = File_stream bytes \<rparr>) \<and>
   (get_cover fs fileName =
      \<lparr> status = 404, headers = [], body = Json_error ''Cover image not found'' \<rparr>
    \<longleftrightarrow> fs_file fs (''./assets/cover/'' @ fileName) = None) \<and>
   (fs_file fs (''./assets/cover/'' @ fileName) = Some bytes' \<longrightarrow>
      get_cover fs fileName =
        \<lparr> status = 200, headers = [(''Content-Type'', ''image/jpeg'')],
          body = File_stream bytes' \<rparr>) \<and>
   (fs_file fs' (''./assets/music/'' @ fileName) = fs_file fs (''./assets/music/'' @ fileName) \<longrightarrow>
      get_audio fs' fileName = get_audio fs fileName) \<and>
   (fs_file fs' (''./assets/cover/'' @ fileName) = fs_file fs (''./assets/cover/'' @ fileName) \<longrightarrow>
      get_cover fs' fileName = get_cover fs fileName)"
  by (auto simp: get_audio_def get_cover_def c_json_def c_body_def split: option.splits)

theorem download_routes_witness:
  "fs_file fs_demo ''./assets/music/notes.md'' = Some ''todo'' \<and>
   get_audio fs_demo ''notes.md'' =
     \<lparr> status = 200, headers = [(''Content-Type'', ''audio/mpeg'')], body = File_stream ''todo'' \<rparr> \<and>
   fs_file fs_demo ''./assets/cover/orphan.jpg'' = Some ''JFIF'' \<and>
   get_cover fs_demo ''orphan.jpg'' =
     \<lparr> status = 200, headers = [(''Content-Type'', ''image/jpeg'')], body = File_stream ''JFIF'' \<rparr> \<and>
   fs_file fs_demo ''./assets/music/a_b_c.mp3'' = None \<and>
   get_audio fs_demo ''a_b_c.mp3'' =
     \<lparr> status = 404, headers = [], body = Json_error ''Audio file not found'' \<rparr> \<and>
   fs_file fs_demo ''./assets/cover/cool_beat.jpg'' = None \<and>
   get_cover fs_demo ''cool_beat.jpg'' =
     \<lparr> status = 404, headers = [], body = Json_error ''Cover image not found'' \<rparr>"
proof -
  have a: "fs_file fs_demo ''./assets/music/notes.md'' = Some ''todo''"
    by (simp add: fs_demo_def)
  have b: "fs_file fs_demo ''./assets/cover/orphan.jpg'' = Some ''JFIF''"
    by (simp add: fs_demo_def)
  have c: "fs_file fs_demo ''./assets/music/a_b_c.mp3'' = None"
    by (simp add: fs_demo_def)
  have d: "fs_file fs_demo ''./assets/cover/cool_beat.jpg'' = None"
    by (simp add: fs_demo_def)
  show ?thesis
    using download_routes [of fs_demo "''notes.md''" "''todo''"]
      download_routes [of fs_demo "''orphan.jpg''" _ "''JFIF''"]
      download_routes [of fs_demo "''a_b_c.mp3''"]
      download_routes [of fs_demo "''cool_beat.jpg''"]
      a b c d
    by simp
qed

text \<open>
  Claim C10. Every entry of a catalog the builder returns has a non-empty list of tags:
  splitting a line at \<open>-\<close> always yields at least one piece, a line without \<open>-\<close> yields
  itself as the only piece, and the empty line yields \<open>[""]\<close>.
\<close>

theorem tags_never_empty:
  assumes "generateApi fs = Inr sounds" and "s \<in> set sounds"
  shows "tags s \<noteq> [] \<and> split_js line ''-'' \<noteq> [] \<and>
         (CHR ''-'' \<notin> set line \<longrightarrow> split_js line ''-'' = [line]) \<and>
         split_js '''' ''-'' = ['''']"
proof -
  from assms(2) have "sounds \<noteq> []" by auto
  with generateApi_cases [OF assms(1)] have t: "generateApi_try fs = Inr sounds" by simp
  from assms(2) obtain i where i: "i < length sounds" and s: "s = sounds ! i"
    by (auto simp: in_set_conv_nth)
  from generateApi_try_built [OF t] i obtain f where "built_from fs i f (sounds ! i)"
    by blast
  then have "tags s \<noteq> []" using s built_from_fields(4) by blast
  moreover have "split_js line ''-'' \<noteq> []" by (simp add: split_js_ne)
  moreover have "CHR ''-'' \<notin> set line \<longrightarrow> split_js line ''-'' = [line]"
    by (simp add: split_js_def split_at_no_sep)
  moreover have "split_js '''' ''-'' = ['''']" by (simp add: split_js_def)
  ultimately show ?thesis by blast
qed

theorem tags_never_empty_witness:
  "generateApi fs_demo = Inr [cool_beat, a_b_c] \<and> a_b_c \<in> set [cool_beat, a_b_c] \<and>
   tags a_b_c = [''''] \<and> tags a_b_c \<noteq> [] \<and>
   CHR ''-'' \<notin> set ''ambient'' \<and> split_js ''ambient'' ''-'' = [''ambient'']"
proof -
  have h2: "a_b_c \<in> set [cool_beat, a_b_c]" by simp
  have n: "CHR ''-'' \<notin> set ''ambient''" by simp
  have t: "tags a_b_c = ['''']" by (simp add: a_b_c_def)
  show ?thesis
    using tags_never_empty [OF generateApi_fs_demo h2, of "''ambient''"] generateApi_fs_demo h2 n t
    by blast
qed

end
